theory Spec2Isabelle
  imports Complex_Main
begin

section \<open>Python string primitives used by \<^verbatim>\<open>main.py\<close>\<close>

text \<open>
  Strings are lists of characters, a character being a code point below 256.
  Among these, \<^verbatim>\<open>\s\<close> and \<^verbatim>\<open>str.split()\<close> treat as whitespace the characters
  \<^verbatim>\<open>\t \n \v \f \r\<close>, the four separators \<^verbatim>\<open>0x1c..0x1f\<close>, the blank, the next-line
  character \<^verbatim>\<open>0x85\<close> and the no-break space \<^verbatim>\<open>0xa0\<close>; \<^verbatim>\<open>\d\<close> matches \<^verbatim>\<open>0..9\<close>.
\<close>

definition is_space :: "char \<Rightarrow> bool" where
  "is_space c \<longleftrightarrow>
     c \<in> set [CHR 0x20, CHR 0x09, CHR 0x0A, CHR 0x0B, CHR 0x0C, CHR 0x0D,
              CHR 0x1C, CHR 0x1D, CHR 0x1E, CHR 0x1F, CHR 0x85, CHR 0xA0]"

definition is_digit :: "char \<Rightarrow> bool" where
  "is_digit c \<longleftrightarrow> c \<in> set ''0123456789''"



text \<open>
  The exceptions that occur. \<open>FileNotFoundError\<close> and \<open>ValueError\<close> carry the
  path that \<^verbatim>\<open>_validate_audio_file\<close> puts into their message. \<open>DigitLimitError\<close>
  is the \<^verbatim>\<open>ValueError\<close> that \<^verbatim>\<open>int\<close> raises on a string with more digits than
  the interpreter's limit, \<open>OverflowError\<close> is raised by a division whose result
  is too large for a float. \<open>Exception\<close> stands for whatever the transcription
  engine or the file system raises.
\<close>

datatype exn =
  FileNotFoundError string | ValueError string | DigitLimitError | OverflowError
  | Exception string




text \<open>
  \<^verbatim>\<open>re.compile(r"\s(\d+)%").findall(text)\<close>: the scan goes left to right; at a
  whitespace character followed by a non-empty maximal run of digits and a percent
  sign it records the digits (group 1) and resumes after the percent sign;
  anywhere else it advances by one character. (The greedy \<^verbatim>\<open>\d+\<close> cannot
  succeed after backtracking, since the character it gives back is a digit, not
  a percent sign.)
\<close>

function findall :: "string \<Rightarrow> string list" where
  "findall [] = []"
| "findall (c # cs) =
     (if is_space c \<and> takeWhile is_digit cs \<noteq> []
         \<and> (case dropWhile is_digit cs of [] \<Rightarrow> False | d # _ \<Rightarrow> d = CHR ''%'')
      then takeWhile is_digit cs # findall (tl (dropWhile is_digit cs))
      else findall cs)"
  by pat_completeness auto
termination
proof (relation "measure length")
  show "wf (measure (length :: string \<Rightarrow> nat))" by simp
next
  fix c :: char and cs :: string
  have "length (dropWhile is_digit cs) \<le> length cs"
    by (rule length_dropWhile_le)
  then have "length (tl (dropWhile is_digit cs)) \<le> length cs"
    by simp
  then show "(tl (dropWhile is_digit cs), c # cs) \<in> measure length" by simp
next
  fix c :: char and cs :: string
  show "(cs, c # cs) \<in> measure length" by simp
qed

section \<open>ProgressParser\<close>

text \<open>
  \<^verbatim>\<open>sys.stdout\<close> points either at the stream that was installed when the program
  started or at the \<^verbatim>\<open>StringIO\<close> buffer of some parser; buffers are told apart
  by the number of the parser object that owns them.
\<close>

datatype target = Console | Buffer nat

record ProgressParser =
  ident :: nat
  buffer :: string
  original_stdout :: target
  captured_content :: string

text \<open>\<^verbatim>\<open>__init__\<close> reads \<^verbatim>\<open>sys.stdout\<close> (the argument \<open>out\<close>); \<open>i\<close> names the fresh object.\<close>

definition parser_init :: "nat \<Rightarrow> target \<Rightarrow> ProgressParser" where
  "parser_init i out =
     \<lparr>ident = i, buffer = [], original_stdout = out, captured_content = []\<rparr>"

text \<open>\<^verbatim>\<open>__enter__\<close> and \<^verbatim>\<open>__exit__\<close> return the new value of \<^verbatim>\<open>sys.stdout\<close>.\<close>

definition parser_enter :: "ProgressParser \<Rightarrow> target \<Rightarrow> target" where
  "parser_enter p out = Buffer (ident p)"

definition parser_exit :: "ProgressParser \<Rightarrow> target \<Rightarrow> target" where
  "parser_exit p out = original_stdout p"


section \<open>Paths\<close>

text \<open>\<^verbatim>\<open>s.strip(chars)\<close>: drops the leading and trailing characters that occur in \<open>chars\<close>.\<close>

definition strip :: "string \<Rightarrow> string \<Rightarrow> string" where
  "strip s chars =
     rev (dropWhile (\<lambda>c. c \<in> set chars) (rev (dropWhile (\<lambda>c. c \<in> set chars) s)))"

definition startswith :: "string \<Rightarrow> string \<Rightarrow> bool" where
  "startswith s pre \<longleftrightarrow> take (length pre) s = pre"

definition endswith :: "string \<Rightarrow> string \<Rightarrow> bool" where
  "endswith s suf \<longleftrightarrow> length suf \<le> length s \<and> drop (length s - length suf) s = suf"

text \<open>
  \<^verbatim>\<open>s.lower()\<close>: the letters \<^verbatim>\<open>A..Z\<close> and the capital letters \<^verbatim>\<open>0xc0..0xde\<close>
  (all but the multiplication sign \<^verbatim>\<open>0xd7\<close>) move up by 32; other characters
  are kept.
\<close>

definition lower_char :: "char \<Rightarrow> char" where
  "lower_char c =
     (let n = (of_char c :: nat)
      in if (65 \<le> n \<and> n \<le> 90) \<or> (192 \<le> n \<and> n \<le> 222 \<and> n \<noteq> 215)
         then char_of (n + 32) else c)"

definition lower :: "string \<Rightarrow> string" where
  "lower s = map lower_char s"

text \<open>\<^verbatim>\<open>s.split(sep)\<close> for a one-character separator, and \<^verbatim>\<open>sep.join(xs)\<close>.\<close>

fun split_sep :: "char \<Rightarrow> string \<Rightarrow> string list" where
  "split_sep sep [] = [[]]"
| "split_sep sep (c # cs) =
     (if c = sep then [] # split_sep sep cs
      else (case split_sep sep cs of [] \<Rightarrow> [[c]] | x # xs \<Rightarrow> (c # x) # xs))"

fun join :: "char \<Rightarrow> string list \<Rightarrow> string" where
  "join sep [] = []"
| "join sep [x] = x"
| "join sep (x # y # ys) = x @ sep # join sep (y # ys)"

text \<open>
  \<^verbatim>\<open>os.path.normpath\<close> belongs to Python's standard library; this is its POSIX
  flavour (\<^verbatim>\<open>posixpath.normpath\<close>). \<open>normpath_step\<close> is the body of its loop over
  the components.
\<close>

definition normpath_step :: "nat \<Rightarrow> string list \<Rightarrow> string \<Rightarrow> string list" where
  "normpath_step initial_slashes new_comps part =
     (if part = [] \<or> part = ''.'' then new_comps
      else if part \<noteq> ''..'' \<or> (initial_slashes = 0 \<and> new_comps = [])
              \<or> (new_comps \<noteq> [] \<and> last new_comps = ''..'')
      then new_comps @ [part]
      else if new_comps \<noteq> [] then butlast new_comps
      else new_comps)"

definition initial_slashes_of :: "string \<Rightarrow> nat" where
  "initial_slashes_of p =
     (if startswith p ''/''
      then (if startswith p ''//'' \<and> \<not> startswith p ''///'' then 2 else 1)
      else 0)"

definition normpath :: "string \<Rightarrow> string" where
  "normpath p =
     (if p = [] then ''.''
      else
        (let initial_slashes = initial_slashes_of p;
             comps = foldl (normpath_step initial_slashes) [] (split_sep CHR ''/'' p);
             p' = replicate initial_slashes CHR ''/'' @ join CHR ''/'' comps
         in if p' = [] then ''.'' else p'))"

text \<open>\<^verbatim>\<open>AudioConverterApp._normalize_path\<close>\<close>

definition normalize_path :: "string \<Rightarrow> string" where
  "normalize_path raw_path = normpath (strip raw_path ''{}'')"

text \<open>\<^verbatim>\<open>s.split()\<close>: the maximal runs of characters that are not whitespace.\<close>

function py_split :: "string \<Rightarrow> string list" where
  "py_split s =
     (let s' = dropWhile is_space s
      in if s' = [] then []
         else takeWhile (\<lambda>c. \<not> is_space c) s' # py_split (dropWhile (\<lambda>c. \<not> is_space c) s'))"
  by pat_completeness auto
termination
proof (relation "measure length")
  show "wf (measure (length :: string \<Rightarrow> nat))" by simp
next
  fix s s' :: string
  assume s': "s' = dropWhile is_space s" and ne: "s' \<noteq> []"
  from ne have "\<not> is_space (hd s')"
    unfolding s' by (rule hd_dropWhile)
  with ne have "length (dropWhile (\<lambda>c. \<not> is_space c) s') < length s'"
    by (cases s') (simp_all add: le_imp_less_Suc length_dropWhile_le)
  moreover have "length s' \<le> length s"
    unfolding s' by (rule length_dropWhile_le)
  ultimately show "(dropWhile (\<lambda>c. \<not> is_space c) s', s) \<in> measure length"
    by simp
qed

declare py_split.simps [simp del]

section \<open>AudioConverterApp\<close>

text \<open>
  The texts shown to the user are kept as values rather than as formatted
  strings: \<open>Str e\<close> is \<^verbatim>\<open>str(e)\<close>, \<open>SaveFailed e\<close> is the message that
  \<^verbatim>\<open>_save_transcription_result\<close> builds from \<^verbatim>\<open>str(e)\<close>.
\<close>

datatype message = Str exn | SaveFailed exn

datatype status_text =
  Loading | InitModel | Ready | Processing string | Finished | Failure message

datatype task_status = Waiting

record task =
  path :: string
  status :: task_status

text \<open>
  The fields of the application object that the queue logic reads or writes.
  \<open>model\<close> tells whether \<^verbatim>\<open>self.model\<close> is set, \<open>model_ready\<close> is the event's flag.
  \<open>task_list\<close> holds, per entry of the list box, the path the entry was made from.
  \<open>shown_errors\<close> lists the calls of \<^verbatim>\<open>_show_error\<close>, \<open>saved\<close> the transcript files
  written (source path and text), \<open>workers\<close> counts the live threads that run
  \<^verbatim>\<open>_execute_transcription\<close>, \<open>after_calls\<close> the pending \<^verbatim>\<open>self.after\<close> callbacks of
  \<^verbatim>\<open>_process_next_task\<close>. \<open>started\<close> is a history variable: the paths of the tasks
  that \<^verbatim>\<open>_process_next_task\<close> took from the queue, in that order.
\<close>

record app =
  queue :: "task list"
  current_task :: "task option"
  model :: bool
  model_ready :: bool
  progress_parser :: "ProgressParser option"
  sys_stdout :: target
  next_ident :: nat
  task_list :: "string list"
  lbl_status :: status_text
  shown_errors :: "message list"
  saved :: "(string \<times> string) list"
  workers :: nat
  after_calls :: nat
  started :: "string list"

text \<open>The state at the end of \<^verbatim>\<open>__init__\<close>, the model still loading.\<close>

definition init_app :: app where
  "init_app =
     \<lparr>queue = [], current_task = None, model = False, model_ready = False,
      progress_parser = None, sys_stdout = Console, next_ident = 0, task_list = [],
      lbl_status = InitModel, shown_errors = [], saved = [], workers = 0,
      after_calls = 0, started = []\<rparr>"

text \<open>The thread started by \<^verbatim>\<open>_load_model_async\<close>, when it completes.\<close>

definition model_loader :: "app \<Rightarrow> app" where
  "model_loader st = st\<lparr>model := True, model_ready := True, lbl_status := Ready\<rparr>"

definition update_status :: "status_text \<Rightarrow> app \<Rightarrow> app" where
  "update_status txt st = st\<lparr>lbl_status := txt\<rparr>"

definition show_error :: "message \<Rightarrow> app \<Rightarrow> app" where
  "show_error m st =
     update_status (Failure m) (st\<lparr>shown_errors := shown_errors st @ [m]\<rparr>)"

definition SUPPORTED_FORMATS :: "string list" where
  "SUPPORTED_FORMATS = [''.wav'', ''.mp3'']"

text \<open>
  \<^verbatim>\<open>_validate_audio_file\<close>; \<open>exists\<close> is \<^verbatim>\<open>os.path.exists\<close>, the file system at
  the time of the call.
\<close>

definition validate_audio_file :: "(string \<Rightarrow> bool) \<Rightarrow> string \<Rightarrow> exn + unit" where
  "validate_audio_file exists file_path =
     (if \<not> exists file_path then Inl (FileNotFoundError file_path)
      else if \<not> list_ex (endswith (lower file_path)) SUPPORTED_FORMATS
      then Inl (ValueError file_path)
      else Inr ())"

text \<open>\<^verbatim>\<open>_process_next_task\<close>\<close>

definition process_next_task :: "app \<Rightarrow> app" where
  "process_next_task st =
     (if \<not> model_ready st then st\<lparr>after_calls := after_calls st + 1\<rparr>
      else if queue st \<noteq> [] \<and> model st
      then (let t = hd (queue st)
            in (update_status (Processing (path t))
                  (st\<lparr>current_task := Some t, queue := tl (queue st)\<rparr>))
               \<lparr>task_list := tl (task_list st),
                workers := workers st + 1,
                started := started st @ [path t]\<rparr>)
      else st)"

text \<open>The body of the loop of \<^verbatim>\<open>_enqueue_files\<close>, for one path.\<close>

definition enqueue_one :: "(string \<Rightarrow> bool) \<Rightarrow> app \<Rightarrow> string \<Rightarrow> app" where
  "enqueue_one exists st raw =
     (let clean_path = normalize_path raw
      in case validate_audio_file exists clean_path of
           Inl e \<Rightarrow> show_error (Str e) st
         | Inr _ \<Rightarrow>
             if \<not> list_ex (\<lambda>t. path t = clean_path) (queue st)
             then st\<lparr>queue := queue st @ [\<lparr>path = clean_path, status = Waiting\<rparr>],
                     task_list := task_list st @ [clean_path]\<rparr>
             else st)"

text \<open>\<^verbatim>\<open>_enqueue_files\<close>: the loop, then the call of \<^verbatim>\<open>_process_next_task\<close>.\<close>

definition enqueue_loop :: "(string \<Rightarrow> bool) \<Rightarrow> string list \<Rightarrow> app \<Rightarrow> app" where
  "enqueue_loop exists file_paths st = foldl (enqueue_one exists) st file_paths"

definition enqueue_files :: "(string \<Rightarrow> bool) \<Rightarrow> string list \<Rightarrow> app \<Rightarrow> app" where
  "enqueue_files exists file_paths st = process_next_task (enqueue_loop exists file_paths st)"

text \<open>
  \<^verbatim>\<open>_handle_dropped_files\<close>: the payload of the drop event is a string or already
  a sequence of strings.
\<close>

datatype payload = DStr string | DSeq "string list"

definition handle_dropped_files :: "(string \<Rightarrow> bool) \<Rightarrow> payload \<Rightarrow> app \<Rightarrow> app" where
  "handle_dropped_files exists data st =
     (let files = (case data of DStr s \<Rightarrow> py_split s | DSeq xs \<Rightarrow> xs)
      in enqueue_files exists files st)"

text \<open>
  \<^verbatim>\<open>_save_transcription_result\<close>; \<open>write\<close> tells what writing the transcript of a
  source path raises, if anything. With no current task the subscript raises
  inside the \<^verbatim>\<open>try\<close>.
\<close>

definition save_transcription_result ::
  "(string \<Rightarrow> string \<Rightarrow> exn option) \<Rightarrow> string \<Rightarrow> app \<Rightarrow> app" where
  "save_transcription_result write text st =
     (case current_task st of
        None \<Rightarrow> show_error (SaveFailed (Exception ''TypeError'')) st
      | Some t \<Rightarrow>
          (case write (path t) text of
             Some e \<Rightarrow> show_error (SaveFailed e) st
           | None \<Rightarrow> st\<lparr>saved := saved st @ [(path t, text)]\<rparr>))"

text \<open>
  \<^verbatim>\<open>_execute_transcription\<close>, the body of a worker thread, run from its start to
  its end; \<open>transcribe\<close> is \<^verbatim>\<open>self.model.transcribe\<close>, which raises or returns the
  text. \<open>on_exception\<close> is the \<^verbatim>\<open>except\<close> clause, the last update the
  \<^verbatim>\<open>finally\<close> clause.
\<close>

definition on_exception :: "exn \<Rightarrow> app \<Rightarrow> app" where
  "on_exception e st = show_error (Str e) (update_status (Failure (Str e)) st)"

definition execute_transcription ::
  "(string \<Rightarrow> exn + string) \<Rightarrow> (string \<Rightarrow> string \<Rightarrow> exn option) \<Rightarrow> app \<Rightarrow> app" where
  "execute_transcription transcribe write st =
     (let parser = parser_init (next_ident st) (sys_stdout st);
          st1 = st\<lparr>next_ident := next_ident st + 1,
                   sys_stdout := parser_enter parser (sys_stdout st),
                   progress_parser := Some parser\<rparr>;
          leave = (\<lambda>s. s\<lparr>sys_stdout := parser_exit parser (sys_stdout s)\<rparr>);
          st2 = (case current_task st1 of
                   None \<Rightarrow> on_exception (Exception ''TypeError'') (leave st1)
                 | Some t \<Rightarrow>
                     (case transcribe (path t) of
                        Inl e \<Rightarrow> on_exception e (leave st1)
                      | Inr text \<Rightarrow>
                          leave (update_status Finished
                                   (save_transcription_result write text st1))))
      in st2\<lparr>progress_parser := None, current_task := None,
              after_calls := after_calls st2 + 1, workers := workers st2 - 1\<rparr>)"

text \<open>
  What can happen to the application: the user adds files (dialog or drop), the
  model finishes loading, a pending \<^verbatim>\<open>after\<close> callback runs, a worker thread
  runs to its end.
\<close>

datatype event =
  EnqueueFiles "string list" | DropFiles payload | ModelLoaded | AfterFires | WorkerEnds

definition step ::
  "(string \<Rightarrow> bool) \<Rightarrow> (string \<Rightarrow> exn + string) \<Rightarrow> (string \<Rightarrow> string \<Rightarrow> exn option)
     \<Rightarrow> app \<Rightarrow> event \<Rightarrow> app" where
  "step exists transcribe write st ev =
     (case ev of
        EnqueueFiles ps \<Rightarrow> enqueue_files exists ps st
      | DropFiles d \<Rightarrow> handle_dropped_files exists d st
      | ModelLoaded \<Rightarrow> model_loader st
      | AfterFires \<Rightarrow>
          if after_calls st = 0 then st
          else process_next_task (st\<lparr>after_calls := after_calls st - 1\<rparr>)
      | WorkerEnds \<Rightarrow>
          if workers st = 0 then st else execute_transcription transcribe write st)"

definition run ::
  "(string \<Rightarrow> bool) \<Rightarrow> (string \<Rightarrow> exn + string) \<Rightarrow> (string \<Rightarrow> string \<Rightarrow> exn option)
     \<Rightarrow> app \<Rightarrow> event list \<Rightarrow> app" where
  "run exists transcribe write st evs = foldl (step exists transcribe write) st evs"

section \<open>Notions used to state the properties\<close>


text \<open>
  Code that uses \<^verbatim>\<open>with ProgressParser(...)\<close> blocks one after the other or one
  inside the other, as a single thread can. The state is \<^verbatim>\<open>sys.stdout\<close> and the
  number of parser objects made so far.
\<close>

datatype usage = Nothing | Then usage usage | Capture usage

fun use_stdout :: "usage \<Rightarrow> target \<times> nat \<Rightarrow> target \<times> nat" where
  "use_stdout Nothing s = s"
| "use_stdout (Then a b) s = use_stdout b (use_stdout a s)"
| "use_stdout (Capture body) (out, n) =
     (let parser = parser_init n out;
          (out', n') = use_stdout body (parser_enter parser out, Suc n)
      in (parser_exit parser out', n'))"

text \<open>
  Two captures whose lifetimes overlap without being nested, as two worker
  threads produce them: the first starts, the second starts, the first stops, the
  second stops.
\<close>

definition first_capture :: ProgressParser where
  "first_capture = parser_init 0 Console"

definition second_capture :: ProgressParser where
  "second_capture = parser_init 1 (parser_enter first_capture Console)"

text \<open>A list with every element after its first occurrence removed.\<close>

fun first_occurrences :: "'a list \<Rightarrow> 'a list" where
  "first_occurrences [] = []"
| "first_occurrences (x # xs) = x # first_occurrences (filter (\<lambda>y. y \<noteq> x) xs)"

definition accepted :: "(string \<Rightarrow> bool) \<Rightarrow> string \<Rightarrow> bool" where
  "accepted exists raw \<longleftrightarrow> validate_audio_file exists (normalize_path raw) = Inr ()"

fun adds_files :: "event \<Rightarrow> bool" where
  "adds_files (EnqueueFiles ps) = True"
| "adds_files (DropFiles d) = True"
| "adds_files ev = False"

text \<open>The paths an event hands to \<^verbatim>\<open>_enqueue_files\<close>.\<close>

fun event_paths :: "event \<Rightarrow> string list" where
  "event_paths (EnqueueFiles ps) = ps"
| "event_paths (DropFiles (DStr s)) = py_split s"
| "event_paths (DropFiles (DSeq xs)) = xs"
| "event_paths ev = []"

text \<open>The normalized paths of the files of an event that pass validation.\<close>

definition offered :: "(string \<Rightarrow> bool) \<Rightarrow> event \<Rightarrow> string list" where
  "offered exists ev = map normalize_path (filter (accepted exists) (event_paths ev))"

text \<open>Appending a path unless it is already there: what the loop does to the queue's paths.\<close>

definition add_path :: "string list \<Rightarrow> string \<Rightarrow> string list" where
  "add_path acc p = (if p \<in> set acc then acc else acc @ [p])"


text \<open>
  States and collaborators of the examples. Every file exists in them. In
  \<open>one_job_pending\<close> a file was added while the model was loading; in
  \<open>one_job_running\<close> and \<open>two_jobs\<close> files were added after the model had loaded,
  so the first of them is being transcribed. \<open>failing_engine\<close> raises on
  \<^verbatim>\<open>x.mp3\<close> and returns a text for every other file.
\<close>

definition one_job_pending :: app where
  "one_job_pending = enqueue_files (\<lambda>p. True) [''a.wav''] init_app"

definition one_job_running :: app where
  "one_job_running = enqueue_files (\<lambda>p. True) [''a.wav''] (model_loader init_app)"

definition two_jobs :: app where
  "two_jobs = enqueue_files (\<lambda>p. True) [''x.mp3'', ''y.wav''] (model_loader init_app)"

definition failing_engine :: "string \<Rightarrow> exn + string" where
  "failing_engine p = (if p = ''x.mp3'' then Inl (Exception ''engine'') else Inr ''hello'')"

text \<open>
  A file system that holds \<^verbatim>\<open>a.wav\<close> and nothing else, and the state in which
  \<^verbatim>\<open>a.wav\<close> was added while the model was loading and the model has just
  finished loading: the task is pending, no job is running, and the retry that
  will start it has not run yet.
\<close>

definition only_a_exists :: "string \<Rightarrow> bool" where
  "only_a_exists p \<longleftrightarrow> p = ''a.wav''"

definition idle_with_pending :: app where
  "idle_with_pending = model_loader (enqueue_files only_a_exists [''a.wav''] init_app)"

section \<open>Progress extraction\<close>






lemma takeWhile_stop: "\<not> P x \<Longrightarrow> takeWhile P (cs @ x # r) = takeWhile P cs"
  by (induction cs) auto

lemma dropWhile_stop: "\<not> P x \<Longrightarrow> dropWhile P (cs @ x # r) = dropWhile P cs @ x # r"
  by (induction cs) auto







text \<open>The next-line character and the no-break space are whitespace too.\<close>

lemma findall_no_break_space: "findall ('' 10%'' @ [CHR 0xA0] @ ''50%'') = [''10'', ''50'']"
  by code_simp

lemma py_split_no_break_space:
  "py_split ([CHR 0xA0] @ '' b.wav'' @ [CHR 0x85]) = [''b.wav'']"
  by code_simp















section \<open>The capture of \<^verbatim>\<open>sys.stdout\<close>\<close>

text \<open>
  C3, as amended. \<^verbatim>\<open>__exit__\<close> sets \<^verbatim>\<open>sys.stdout\<close> to the target that the parser
  read when it was constructed, whatever the channel points at by then. So when
  captures follow one another or are nested one inside the other, every stop
  puts the channel back to what it was before that capture, and after the last
  stop it points at the original target.
\<close>

theorem stop_restores_recorded_target:
  "parser_exit (parser_init i out) cur = out \<and> fst (use_stdout u (out, n)) = out"
proof
  show "parser_exit (parser_init i out) cur = out"
    by (simp add: parser_exit_def parser_init_def)
  show "fst (use_stdout u (out, n)) = out"
  proof (induction u arbitrary: out n)
    case Nothing
    show ?case by simp
  next
    case (Then a b)
    obtain out' n' where mid: "use_stdout a (out, n) = (out', n')"
      by (cases "use_stdout a (out, n)")
    with Then.IH(1) [of out n] have "out' = out" by simp
    with Then.IH(2) [of out n'] mid show ?case by simp
  next
    case (Capture body)
    show ?case
      by (simp add: Let_def parser_exit_def parser_init_def split: prod.splits)
  qed
qed

text \<open>
  C3 as stated fails when two captures overlap without being nested: the first
  starts, the second starts, the first stops, the second stops. The second
  parser recorded the first one's buffer as its original target, so the last
  stop leaves \<^verbatim>\<open>sys.stdout\<close> pointing at that buffer and not at the console.
\<close>

theorem overlapping_captures_leave_buffer:
  "parser_exit second_capture
     (parser_exit first_capture
        (parser_enter second_capture (parser_enter first_capture Console)))
   = Buffer (ident first_capture)
   \<and> parser_exit second_capture
       (parser_exit first_capture
          (parser_enter second_capture (parser_enter first_capture Console))) \<noteq> Console"
  by (simp add: parser_exit_def parser_enter_def second_capture_def first_capture_def
        parser_init_def)

section \<open>Starting workers\<close>

lemma one_job_running_eval:
  "one_job_running = init_app\<lparr>model := True, model_ready := True,
      current_task := Some \<lparr>path = ''a.wav'', status = Waiting\<rparr>,
      lbl_status := Processing ''a.wav'', workers := 1, started := [''a.wav'']\<rparr>"
  by code_simp

text \<open>
  C1 fails on the code. With the model loaded, adding \<^verbatim>\<open>a.wav\<close> starts a worker
  for it; adding \<^verbatim>\<open>b.wav\<close> while that worker is still running makes
  \<^verbatim>\<open>_enqueue_files\<close> call \<^verbatim>\<open>_process_next_task\<close>, which looks at the queue and the
  model only, not at \<^verbatim>\<open>current_task\<close>: it overwrites the current task and starts
  a second worker.
\<close>

theorem second_enqueue_starts_second_worker:
  "workers one_job_running = 1
   \<and> current_task one_job_running = Some \<lparr>path = ''a.wav'', status = Waiting\<rparr>
   \<and> workers (enqueue_files (\<lambda>p. True) [''b.wav''] one_job_running) = 2
   \<and> current_task (enqueue_files (\<lambda>p. True) [''b.wav''] one_job_running)
       = Some \<lparr>path = ''b.wav'', status = Waiting\<rparr>"
  by code_simp

text \<open>
  The same happens without any file being added during a transcription: each
  call of \<^verbatim>\<open>_enqueue_files\<close> made while the model is loading leaves one retry
  pending, and after loading every retry takes a task and starts a worker.
\<close>

lemma retries_start_workers_side_by_side:
  "workers (run (\<lambda>p. True) failing_engine (\<lambda>p t. None) init_app
      [EnqueueFiles [''a.wav''], EnqueueFiles [''b.wav''], ModelLoaded, AfterFires, AfterFires])
   = 2"
  by code_simp

section \<open>Adding files to the queue\<close>

text \<open>
  C2 as stated fails for the currently executing job: the loop compares the
  path with the entries of \<^verbatim>\<open>self.queue\<close> only. While \<^verbatim>\<open>a.wav\<close> is being
  transcribed the queue is empty, and adding \<^verbatim>\<open>a.wav\<close> again appends an entry
  for it.
\<close>

theorem enqueue_of_current_job_appends:
  "current_task one_job_running = Some \<lparr>path = ''a.wav'', status = Waiting\<rparr>
   \<and> queue one_job_running = []
   \<and> normalize_path ''a.wav'' = ''a.wav''
   \<and> queue (enqueue_one (\<lambda>p. True) one_job_running ''a.wav'')
       = [\<lparr>path = ''a.wav'', status = Waiting\<rparr>]"
  by code_simp

text \<open>
  C2, as amended. When the normalized path is already the path of a pending
  entry, the step of the loop for that path leaves the queue and the list box
  as they are; when the path also passes validation, the step changes nothing
  at all, so no error is reported.
\<close>

theorem enqueue_pending_duplicate:
  assumes "normalize_path raw \<in> set (map path (queue st))"
  shows "queue (enqueue_one exists st raw) = queue st
         \<and> task_list (enqueue_one exists st raw) = task_list st
         \<and> (accepted exists raw \<longrightarrow> enqueue_one exists st raw = st)"
proof -
  from assms have dup: "list_ex (\<lambda>t. path t = normalize_path raw) (queue st)"
    by (auto simp: list_ex_iff)
  show ?thesis
    by (cases "validate_audio_file exists (normalize_path raw)")
       (simp_all add: enqueue_one_def Let_def dup accepted_def show_error_def update_status_def)
qed

theorem enqueue_pending_duplicate_witness:
  "normalize_path ''{a.wav}'' \<in> set (map path (queue one_job_pending))
   \<and> accepted (\<lambda>p. True) ''{a.wav}''
   \<and> map path (queue one_job_pending) = [''a.wav'']
   \<and> enqueue_one (\<lambda>p. True) one_job_pending ''{a.wav}'' = one_job_pending"
proof -
  have h: "normalize_path ''{a.wav}'' \<in> set (map path (queue one_job_pending))"
    by code_simp
  have a: "accepted (\<lambda>p. True) ''{a.wav}''" by code_simp
  have q: "map path (queue one_job_pending) = [''a.wav'']" by code_simp
  from enqueue_pending_duplicate [OF h, of "\<lambda>p. True"] a
  have "enqueue_one (\<lambda>p. True) one_job_pending ''{a.wav}'' = one_job_pending" by blast
  with h a q show ?thesis by blast
qed

text \<open>
  C7, as amended. When the normalized path does not exist, or exists but ends in
  none of the supported extensions, validation raises (\<^verbatim>\<open>FileNotFoundError\<close> in
  the first case, \<^verbatim>\<open>ValueError\<close> in the second), the step of the loop for that
  path hands the error to \<^verbatim>\<open>_show_error\<close>, and the queue and the list box stay
  as they were. The whole call of \<^verbatim>\<open>_enqueue_files\<close> for that one path appends
  nothing either, and leaves the queue as it was unless the model is ready and
  a task is pending; with the model ready and no job running, the call of
  \<^verbatim>\<open>_process_next_task\<close> at its end takes the first pending task.
\<close>

theorem enqueue_invalid_path:
  assumes "\<not> exists (normalize_path raw)
           \<or> \<not> list_ex (endswith (lower (normalize_path raw))) SUPPORTED_FORMATS"
  shows "validate_audio_file exists (normalize_path raw)
           = Inl (if \<not> exists (normalize_path raw)
                  then FileNotFoundError (normalize_path raw)
                  else ValueError (normalize_path raw))
         \<and> queue (enqueue_one exists st raw) = queue st
         \<and> task_list (enqueue_one exists st raw) = task_list st
         \<and> shown_errors (enqueue_one exists st raw)
             = shown_errors st @
               [Str (if \<not> exists (normalize_path raw)
                     then FileNotFoundError (normalize_path raw)
                     else ValueError (normalize_path raw))]
         \<and> lbl_status (enqueue_one exists st raw)
             = Failure (Str (if \<not> exists (normalize_path raw)
                             then FileNotFoundError (normalize_path raw)
                             else ValueError (normalize_path raw)))
         \<and> shown_errors (enqueue_files exists [raw] st) = shown_errors (enqueue_one exists st raw)
         \<and> set (queue (enqueue_files exists [raw] st)) \<subseteq> set (queue st)
         \<and> (\<not> model_ready st \<or> queue st = [] \<or> \<not> model st
              \<longrightarrow> queue (enqueue_files exists [raw] st) = queue st)
         \<and> (model_ready st \<and> model st \<and> current_task st = None
              \<longrightarrow> queue (enqueue_files exists [raw] st) = tl (queue st))"
proof -
  define e where "e = (if \<not> exists (normalize_path raw)
                       then FileNotFoundError (normalize_path raw)
                       else ValueError (normalize_path raw))"
  have v: "validate_audio_file exists (normalize_path raw) = Inl e"
    using assms by (auto simp: validate_audio_file_def e_def)
  then have one: "enqueue_one exists st raw = show_error (Str e) st"
    by (simp add: enqueue_one_def)
  have files: "enqueue_files exists [raw] st = process_next_task (show_error (Str e) st)"
    by (simp add: enqueue_files_def enqueue_loop_def one)
  have "set (tl (queue st)) \<subseteq> set (queue st)"
    by (cases "queue st") auto
  then have sub: "set (queue (enqueue_files exists [raw] st)) \<subseteq> set (queue st)"
    by (simp add: files process_next_task_def show_error_def update_status_def Let_def)
  have errs: "shown_errors (enqueue_files exists [raw] st)
              = shown_errors (enqueue_one exists st raw)"
    by (simp add: files one process_next_task_def show_error_def update_status_def Let_def)
  have same: "\<not> model_ready st \<or> queue st = [] \<or> \<not> model st
              \<longrightarrow> queue (enqueue_files exists [raw] st) = queue st"
    by (auto simp: files process_next_task_def show_error_def update_status_def)
  have taken: "model_ready st \<and> model st \<and> current_task st = None
              \<longrightarrow> queue (enqueue_files exists [raw] st) = tl (queue st)"
    by (cases "queue st")
       (auto simp: files process_next_task_def show_error_def update_status_def Let_def)
  from v sub errs same taken show ?thesis
    unfolding e_def [symmetric] by (simp add: one show_error_def update_status_def)
qed

theorem enqueue_invalid_path_witness:
  "queue (enqueue_one (\<lambda>p. False) one_job_pending ''/tmp/missing.wav'') = queue one_job_pending
   \<and> shown_errors (enqueue_one (\<lambda>p. False) one_job_pending ''/tmp/missing.wav'')
       = [Str (FileNotFoundError ''/tmp/missing.wav'')]
   \<and> \<not> list_ex (endswith (lower (normalize_path ''Notes.TXT''))) SUPPORTED_FORMATS
   \<and> queue (enqueue_one (\<lambda>p. True) one_job_pending ''Notes.TXT'') = queue one_job_pending
   \<and> shown_errors (enqueue_one (\<lambda>p. True) one_job_pending ''Notes.TXT'')
       = [Str (ValueError ''Notes.TXT'')]"
proof -
  have n1: "normalize_path ''/tmp/missing.wav'' = ''/tmp/missing.wav''" by code_simp
  have n2: "normalize_path ''Notes.TXT'' = ''Notes.TXT''" by code_simp
  have ext: "\<not> list_ex (endswith (lower (normalize_path ''Notes.TXT''))) SUPPORTED_FORMATS"
    by code_simp
  have e0: "shown_errors one_job_pending = []" by code_simp
  from enqueue_invalid_path [of "\<lambda>p. False" "''/tmp/missing.wav''" one_job_pending]
  have a: "queue (enqueue_one (\<lambda>p. False) one_job_pending ''/tmp/missing.wav'') = queue one_job_pending
     \<and> shown_errors (enqueue_one (\<lambda>p. False) one_job_pending ''/tmp/missing.wav'')
       = [Str (FileNotFoundError ''/tmp/missing.wav'')]"
    by (simp add: n1 e0)
  from enqueue_invalid_path [of "\<lambda>p. True" "''Notes.TXT''" one_job_pending, OF disjI2, OF ext]
  have b: "queue (enqueue_one (\<lambda>p. True) one_job_pending ''Notes.TXT'') = queue one_job_pending
   \<and> shown_errors (enqueue_one (\<lambda>p. True) one_job_pending ''Notes.TXT'')
       = [Str (ValueError ''Notes.TXT'')]"
    by (simp add: n2 e0)
  from a b ext show ?thesis by blast
qed

text \<open>
  C7 as stated fails for the call as a whole. In \<open>idle_with_pending\<close> the model
  is ready, no job is running and \<^verbatim>\<open>a.wav\<close> is pending. Adding the missing file
  \<^verbatim>\<open>/tmp/missing.wav\<close> reports the error, and the call of \<^verbatim>\<open>_process_next_task\<close>
  at the end of \<^verbatim>\<open>_enqueue_files\<close> takes \<^verbatim>\<open>a.wav\<close> from the queue: the pending queue
  is not left unchanged by that call.
\<close>

theorem invalid_enqueue_call_takes_pending_task:
  "map path (queue idle_with_pending) = [''a.wav'']
   \<and> current_task idle_with_pending = None
   \<and> \<not> only_a_exists (normalize_path ''/tmp/missing.wav'')
   \<and> shown_errors (enqueue_files only_a_exists [''/tmp/missing.wav''] idle_with_pending)
       = [Str (FileNotFoundError ''/tmp/missing.wav'')]
   \<and> queue (enqueue_files only_a_exists [''/tmp/missing.wav''] idle_with_pending) = []"
  by code_simp

section \<open>A job that fails\<close>

text \<open>
  C8. Let \<open>x\<close> be the current task, with its worker running and \<open>y\<close> next in the
  queue, and let the transcription of \<open>x\<close> raise \<open>e\<close>, or succeed and the writing
  of its transcript raise \<open>e\<close>. When the worker ends, the error has been shown
  (as \<^verbatim>\<open>str(e)\<close>, or as the save error built from it), nothing has been saved,
  \<^verbatim>\<open>sys.stdout\<close> is restored, \<^verbatim>\<open>progress_parser\<close> and \<^verbatim>\<open>current_task\<close> are
  cleared and a call of \<^verbatim>\<open>_process_next_task\<close> is pending. When that call runs
  it makes \<open>y\<close> the current task and starts its worker; if transcribing \<open>y\<close> and
  writing its transcript succeed, that worker saves the transcript of \<open>y\<close> and
  ends with the status of a finished transcription and no further error.
\<close>

theorem failed_job_does_not_block_next:
  assumes "current_task st = Some x" "queue st = y # rest" "workers st = 1"
    and "model st" "model_ready st"
    and "transcribe (path x) = Inl e
         \<or> (\<exists>tx. transcribe (path x) = Inr tx \<and> write (path x) tx = Some e)"
    and "transcribe (path y) = Inr ty" "write (path y) ty = None"
  shows "let st1 = step exists transcribe write st WorkerEnds;
             st2 = step exists transcribe write st1 AfterFires;
             st3 = step exists transcribe write st2 WorkerEnds
         in shown_errors st1
              = shown_errors st @ [case transcribe (path x) of Inl _ \<Rightarrow> Str e | Inr _ \<Rightarrow> SaveFailed e]
            \<and> progress_parser st1 = None \<and> current_task st1 = None
            \<and> sys_stdout st1 = sys_stdout st \<and> saved st1 = saved st
            \<and> after_calls st1 = after_calls st + 1 \<and> workers st1 = 0
            \<and> current_task st2 = Some y \<and> queue st2 = rest \<and> workers st2 = 1
            \<and> saved st3 = saved st @ [(path y, ty)] \<and> lbl_status st3 = Finished
            \<and> shown_errors st3 = shown_errors st1 \<and> current_task st3 = None"
  using assms
  by (auto simp: step_def execute_transcription_def Let_def on_exception_def show_error_def
        update_status_def save_transcription_result_def process_next_task_def
        parser_exit_def parser_init_def parser_enter_def)

theorem failed_job_does_not_block_next_witness:
  "current_task two_jobs = Some \<lparr>path = ''x.mp3'', status = Waiting\<rparr>
   \<and> queue two_jobs = [\<lparr>path = ''y.wav'', status = Waiting\<rparr>]
   \<and> failing_engine ''x.mp3'' = Inl (Exception ''engine'')
   \<and> shown_errors (step (\<lambda>p. True) failing_engine (\<lambda>p t. None) two_jobs WorkerEnds)
       = [Str (Exception ''engine'')]
   \<and> saved (step (\<lambda>p. True) failing_engine (\<lambda>p t. None)
              (step (\<lambda>p. True) failing_engine (\<lambda>p t. None)
                 (step (\<lambda>p. True) failing_engine (\<lambda>p t. None) two_jobs WorkerEnds)
                 AfterFires)
              WorkerEnds)
       = [(''y.wav'', ''hello'')]"
proof -
  have c: "current_task two_jobs = Some \<lparr>path = ''x.mp3'', status = Waiting\<rparr>" by code_simp
  have q: "queue two_jobs = [\<lparr>path = ''y.wav'', status = Waiting\<rparr>]" by code_simp
  have w: "workers two_jobs = 1" by code_simp
  have m: "model two_jobs" "model_ready two_jobs" by code_simp+
  have f: "failing_engine ''x.mp3'' = Inl (Exception ''engine'')" by code_simp
  have fx: "failing_engine (path \<lparr>path = ''x.mp3'', status = Waiting\<rparr>) = Inl (Exception ''engine'')
     \<or> (\<exists>tx. failing_engine (path \<lparr>path = ''x.mp3'', status = Waiting\<rparr>) = Inr tx
           \<and> (\<lambda>p t. None) (path \<lparr>path = ''x.mp3'', status = Waiting\<rparr>) tx = Some (Exception ''engine''))"
    by (simp add: f)
  have fy: "failing_engine (path \<lparr>path = ''y.wav'', status = Waiting\<rparr>) = Inr ''hello''"
    by code_simp
  have s0: "saved two_jobs = []" "shown_errors two_jobs = []" by code_simp+
  from failed_job_does_not_block_next [OF c q w m fx fy, of "\<lambda>p. True"]
  have "shown_errors (step (\<lambda>p. True) failing_engine (\<lambda>p t. None) two_jobs WorkerEnds)
       = [Str (Exception ''engine'')]
   \<and> saved (step (\<lambda>p. True) failing_engine (\<lambda>p t. None)
              (step (\<lambda>p. True) failing_engine (\<lambda>p t. None)
                 (step (\<lambda>p. True) failing_engine (\<lambda>p t. None) two_jobs WorkerEnds)
                 AfterFires)
              WorkerEnds)
       = [(''y.wav'', ''hello'')]"
    by (simp add: Let_def s0 f)
  with c q f show ?thesis by blast
qed


section \<open>Dropped files\<close>

lemma py_split_blank: "dropWhile is_space s = [] \<Longrightarrow> py_split s = []"
  by (subst py_split.simps) (simp add: Let_def)

lemma py_split_word:
  "dropWhile is_space s \<noteq> [] \<Longrightarrow>
   py_split s = takeWhile (\<lambda>c. \<not> is_space c) (dropWhile is_space s)
                  # py_split (dropWhile (\<lambda>c. \<not> is_space c) (dropWhile is_space s))"
  by (subst py_split.simps) (simp add: Let_def)

lemma py_split_skip_space: "py_split (dropWhile is_space s) = py_split s"
proof -
  have idem: "dropWhile is_space (dropWhile is_space s) = dropWhile is_space s"
    by simp
  show ?thesis
  proof (cases "dropWhile is_space s = []")
    case True
    have "dropWhile is_space (dropWhile is_space s) = []"
      unfolding idem by (rule True)
    then have "py_split (dropWhile is_space s) = []" by (rule py_split_blank)
    with py_split_blank [OF True] show ?thesis by (simp only:)
  next
    case False
    have "dropWhile is_space (dropWhile is_space s) \<noteq> []"
      unfolding idem by (rule False)
    from py_split_word [OF this] py_split_word [OF False] show ?thesis
      unfolding idem by (simp only:)
  qed
qed

lemma py_split_words:
  "x \<in> set (py_split s) \<Longrightarrow> x \<noteq> [] \<and> (\<forall>c\<in>set x. \<not> is_space c)"
proof (induction s rule: py_split.induct)
  case (1 s)
  define s' where "s' = dropWhile is_space s"
  show ?case
  proof (cases "s' = []")
    case True
    then have "py_split s = []" unfolding s'_def by (rule py_split_blank)
    with 1(2) show ?thesis by simp
  next
    case False
    then have hd: "\<not> is_space (hd s')"
      unfolding s'_def by (rule hd_dropWhile)
    from False have "py_split s = takeWhile (\<lambda>c. \<not> is_space c) s'
                  # py_split (dropWhile (\<lambda>c. \<not> is_space c) s')"
      unfolding s'_def by (rule py_split_word)
    with 1(2) have "x = takeWhile (\<lambda>c. \<not> is_space c) s'
        \<or> x \<in> set (py_split (dropWhile (\<lambda>c. \<not> is_space c) s'))"
      by simp
    then show ?thesis
    proof
      assume x: "x = takeWhile (\<lambda>c. \<not> is_space c) s'"
      from False hd have "x \<noteq> []" unfolding x by (cases s') simp_all
      moreover have "\<forall>c\<in>set x. \<not> is_space c"
        unfolding x by (auto dest: set_takeWhileD)
      ultimately show ?thesis by simp
    next
      assume "x \<in> set (py_split (dropWhile (\<lambda>c. \<not> is_space c) s'))"
      with 1(1) [OF s'_def False] show ?thesis by simp
    qed
  qed
qed

lemma py_split_append:
  assumes "is_space w"
  shows "py_split (a @ w # b) = py_split a @ py_split b"
proof (induction a rule: py_split.induct)
  case (1 a)
  define a' where "a' = dropWhile is_space a"
  show ?case
  proof (cases "a' = []")
    case True
    then have all: "\<And>x. x \<in> set a \<Longrightarrow> is_space x"
      unfolding a'_def by simp
    then have "dropWhile is_space (a @ w # b) = dropWhile is_space b"
      using assms by simp
    then have "py_split (a @ w # b) = py_split b"
      by (metis py_split_skip_space)
    moreover from True have "py_split a = []"
      unfolding a'_def by (rule py_split_blank)
    ultimately show ?thesis by simp
  next
    case False
    then obtain x where x: "x \<in> set a" "\<not> is_space x"
      unfolding a'_def by auto
    then have d: "dropWhile is_space (a @ w # b) = a' @ w # b"
      unfolding a'_def by simp
    have nn: "\<not> (\<lambda>c. \<not> is_space c) w" using assms by simp
    have t: "takeWhile (\<lambda>c. \<not> is_space c) (a' @ w # b) = takeWhile (\<lambda>c. \<not> is_space c) a'"
      using nn by (rule takeWhile_stop)
    have r: "dropWhile (\<lambda>c. \<not> is_space c) (a' @ w # b)
        = dropWhile (\<lambda>c. \<not> is_space c) a' @ w # b"
      using nn by (rule dropWhile_stop)
    have "dropWhile is_space (a @ w # b) \<noteq> []" by (simp add: d)
    from py_split_word [OF this]
    have "py_split (a @ w # b) = takeWhile (\<lambda>c. \<not> is_space c) a'
            # py_split (dropWhile (\<lambda>c. \<not> is_space c) a' @ w # b)"
      by (simp only: d t r)
    moreover have "py_split (dropWhile (\<lambda>c. \<not> is_space c) a' @ w # b)
        = py_split (dropWhile (\<lambda>c. \<not> is_space c) a') @ py_split b"
      by (rule 1 [OF a'_def False])
    moreover have "py_split a = takeWhile (\<lambda>c. \<not> is_space c) a'
        # py_split (dropWhile (\<lambda>c. \<not> is_space c) a')"
      using False unfolding a'_def by (rule py_split_word)
    ultimately show ?thesis by simp
  qed
qed

lemma py_split_nonempty:
  assumes "\<exists>c\<in>set a. \<not> is_space c"
  shows "py_split a \<noteq> []"
proof -
  from assms have "dropWhile is_space a \<noteq> []"
    by auto
  from py_split_word [OF this] show ?thesis by simp
qed

text \<open>
  C10. A drop event whose payload is a string is split at whitespace before
  anything else: \<^verbatim>\<open>_enqueue_files\<close> receives the fragments, and its loop
  normalizes and validates each fragment on its own. When the string has a
  whitespace character with something other than whitespace on either side, as
  the path of a single file with a blank in it has, there are fragments from
  both sides, at least two, and no fragment contains whitespace, so none is the
  path that was dropped.
\<close>

theorem dropped_string_is_split:
  assumes "is_space w" "\<exists>c\<in>set a. \<not> is_space c" "\<exists>c\<in>set b. \<not> is_space c"
  shows "handle_dropped_files exists (DStr (a @ w # b)) st
           = process_next_task (foldl (enqueue_one exists) st (py_split a @ py_split b))
         \<and> py_split a \<noteq> [] \<and> py_split b \<noteq> []
         \<and> (\<forall>f\<in>set (py_split a @ py_split b). f \<noteq> a @ w # b \<and> \<not> list_ex is_space f)"
proof -
  have "\<forall>f\<in>set (py_split a @ py_split b). f \<noteq> a @ w # b \<and> \<not> list_ex is_space f"
  proof
    fix f assume "f \<in> set (py_split a @ py_split b)"
    then have "f \<in> set (py_split a) \<or> f \<in> set (py_split b)" by simp
    then have ns: "\<forall>c\<in>set f. \<not> is_space c" using py_split_words by blast
    then have "w \<notin> set f" using assms(1) by blast
    then have "f \<noteq> a @ w # b" by auto
    with ns show "f \<noteq> a @ w # b \<and> \<not> list_ex is_space f" by (simp add: list_ex_iff)
  qed
  then show ?thesis
    using py_split_nonempty [OF assms(2)] py_split_nonempty [OF assms(3)]
    by (simp add: handle_dropped_files_def enqueue_files_def enqueue_loop_def
          py_split_append [OF assms(1)])
qed

theorem dropped_string_is_split_witness:
  "is_space CHR '' '' \<and> py_split ''{/music/my song.wav}'' = [''{/music/my'', ''song.wav}'']
   \<and> handle_dropped_files (\<lambda>p. p = ''/music/my song.wav'') (DStr ''{/music/my song.wav}'')
         init_app
       = process_next_task
           (foldl (enqueue_one (\<lambda>p. p = ''/music/my song.wav'')) init_app
              [''{/music/my'', ''song.wav}''])
   \<and> shown_errors (handle_dropped_files (\<lambda>p. p = ''/music/my song.wav'')
                      (DStr ''{/music/my song.wav}'') init_app)
       = [Str (FileNotFoundError ''/music/my''), Str (FileNotFoundError ''song.wav'')]
   \<and> queue (handle_dropped_files (\<lambda>p. p = ''/music/my song.wav'')
               (DStr ''{/music/my song.wav}'') init_app) = []"
proof -
  have sp: "is_space CHR '' ''" by (simp add: is_space_def)
  have a: "\<exists>c\<in>set ''{/music/my''. \<not> is_space c" by (simp add: is_space_def)
  have b: "\<exists>c\<in>set ''song.wav}''. \<not> is_space c" by (simp add: is_space_def)
  have pa: "py_split ''{/music/my'' = [''{/music/my'']" by code_simp
  have pb: "py_split ''song.wav}'' = [''song.wav}'']" by code_simp
  have whole: "py_split ''{/music/my song.wav}'' = [''{/music/my'', ''song.wav}'']"
    by code_simp
  from dropped_string_is_split [OF sp a b, of "\<lambda>p. p = ''/music/my song.wav''" init_app]
  have split: "handle_dropped_files (\<lambda>p. p = ''/music/my song.wav'')
                 (DStr ''{/music/my song.wav}'') init_app
       = process_next_task
           (foldl (enqueue_one (\<lambda>p. p = ''/music/my song.wav'')) init_app
              [''{/music/my'', ''song.wav}''])"
    by (simp add: pa pb)
  have errs: "shown_errors (process_next_task
           (foldl (enqueue_one (\<lambda>p. p = ''/music/my song.wav'')) init_app
              [''{/music/my'', ''song.wav}'']))
       = [Str (FileNotFoundError ''/music/my''), Str (FileNotFoundError ''song.wav'')]"
    by code_simp
  have q: "queue (process_next_task
           (foldl (enqueue_one (\<lambda>p. p = ''/music/my song.wav'')) init_app
              [''{/music/my'', ''song.wav}''])) = []"
    by code_simp
  from sp whole split errs q show ?thesis by (simp only: simp_thms)
qed

section \<open>Normalizing a path\<close>













section \<open>The order of processing\<close>

lemma foldl_add_path:
  "foldl add_path acc xs = acc @ first_occurrences (filter (\<lambda>x. x \<notin> set acc) xs)"
proof (induction xs arbitrary: acc)
  case Nil
  show ?case by simp
next
  case (Cons x xs)
  show ?case
  proof (cases "x \<in> set acc")
    case True
    then have "add_path acc x = acc" by (simp add: add_path_def)
    with True show ?thesis by (simp add: Cons.IH)
  next
    case False
    then have step: "add_path acc x = acc @ [x]" by (simp add: add_path_def)
    have "filter (\<lambda>y. y \<notin> set (acc @ [x])) xs = filter (\<lambda>y. y \<noteq> x) (filter (\<lambda>y. y \<notin> set acc) xs)"
      by (auto intro: filter_cong)
    with False show ?thesis by (simp add: step Cons.IH)
  qed
qed

lemma enqueue_one_paths:
  "map path (queue (enqueue_one ex st raw)) =
     (if accepted ex raw then add_path (map path (queue st)) (normalize_path raw)
      else map path (queue st))"
  by (cases "validate_audio_file ex (normalize_path raw)")
     (auto simp: enqueue_one_def accepted_def add_path_def Let_def show_error_def
        update_status_def list_ex_iff intro: rev_image_eqI)

lemma enqueue_one_frame:
  "started (enqueue_one ex st raw) = started st \<and> model_ready (enqueue_one ex st raw) = model_ready st"
  by (cases "validate_audio_file ex (normalize_path raw)")
     (auto simp: enqueue_one_def Let_def show_error_def update_status_def)

lemma enqueue_loop_paths:
  "map path (queue (enqueue_loop ex ps st)) =
     foldl add_path (map path (queue st)) (map normalize_path (filter (accepted ex) ps))"
  unfolding enqueue_loop_def
  by (induction ps arbitrary: st) (simp_all add: enqueue_one_paths)

lemma enqueue_loop_frame:
  "started (enqueue_loop ex ps st) = started st \<and> model_ready (enqueue_loop ex ps st) = model_ready st"
  unfolding enqueue_loop_def
  by (induction ps arbitrary: st) (simp_all add: enqueue_one_frame)

lemma process_next_task_waiting:
  "\<not> model_ready st \<Longrightarrow> queue (process_next_task st) = queue st \<and> started (process_next_task st) = started st
     \<and> \<not> model_ready (process_next_task st)"
  by (simp add: process_next_task_def)

lemma adding_step:
  assumes "adds_files ev" "\<not> model_ready st"
  shows "map path (queue (step ex tr wr st ev)) =
           foldl add_path (map path (queue st)) (map normalize_path (filter (accepted ex) (event_paths ev)))
         \<and> started (step ex tr wr st ev) = started st \<and> \<not> model_ready (step ex tr wr st ev)"
proof -
  have loop: "step ex tr wr st ev = process_next_task (enqueue_loop ex (event_paths ev) st)"
    using assms(1)
    by (cases ev rule: event_paths.cases)
       (simp_all add: step_def handle_dropped_files_def enqueue_files_def)
  have "\<not> model_ready (enqueue_loop ex (event_paths ev) st)"
    using assms(2) by (simp add: enqueue_loop_frame)
  from process_next_task_waiting [OF this] show ?thesis
    by (simp add: loop enqueue_loop_paths enqueue_loop_frame)
qed

lemma adding_phase:
  assumes "\<forall>ev\<in>set evs. adds_files ev" "\<not> model_ready st"
  shows "map path (queue (run ex tr wr st evs)) =
           foldl add_path (map path (queue st))
             (map normalize_path (filter (accepted ex) (concat (map event_paths evs))))
         \<and> started (run ex tr wr st evs) = started st"
  using assms unfolding run_def
proof (induction evs arbitrary: st)
  case Nil
  show ?case by simp
next
  case (Cons ev evs)
  from Cons.prems have a: "adds_files ev" and r: "\<forall>ev\<in>set evs. adds_files ev" by simp_all
  note s = adding_step [OF a Cons.prems(2), of ex tr wr]
  from s have nr: "\<not> model_ready (step ex tr wr st ev)" by simp
  from Cons.IH [OF r nr] s show ?case by simp
qed

lemma process_next_task_order:
  "started (process_next_task st) @ map path (queue (process_next_task st)) = started st @ map path (queue st)"
  by (cases "queue st") (simp_all add: process_next_task_def Let_def update_status_def)

lemma execute_transcription_frame:
  "queue (execute_transcription tr wr st) = queue st \<and> started (execute_transcription tr wr st) = started st"
  by (simp add: execute_transcription_def Let_def on_exception_def show_error_def update_status_def
        save_transcription_result_def split: option.splits sum.splits)

lemma other_step:
  assumes "\<not> adds_files ev"
  shows "started (step ex tr wr st ev) @ map path (queue (step ex tr wr st ev)) = started st @ map path (queue st)"
proof (cases ev)
  case AfterFires
  show ?thesis
    using process_next_task_order [of "st\<lparr>after_calls := after_calls st - 1\<rparr>"]
    by (simp add: AfterFires step_def)
next
  case WorkerEnds
  show ?thesis by (simp add: WorkerEnds step_def execute_transcription_frame)
qed (use assms in \<open>simp_all add: step_def model_loader_def\<close>)

lemma other_phase:
  assumes "\<forall>ev\<in>set evs. \<not> adds_files ev"
  shows "started (run ex tr wr st evs) @ map path (queue (run ex tr wr st evs)) = started st @ map path (queue st)"
  using assms unfolding run_def
  by (induction evs arbitrary: st) (simp_all add: other_step)

text \<open>
  When all files are added while the model is loading and nothing was queued
  or started before, the tasks taken so far followed by the pending ones are
  the accepted paths with every later duplicate left out.
\<close>

lemma processing_order_while_loading:
  assumes "queue st = []" "started st = []" "\<not> model_ready st"
    and "\<forall>ev\<in>set adding. adds_files ev" "\<forall>ev\<in>set later. \<not> adds_files ev"
  shows "started (run ex tr wr st (adding @ later)) @ map path (queue (run ex tr wr st (adding @ later)))
         = first_occurrences (map normalize_path (filter (accepted ex) (concat (map event_paths adding))))"
proof -
  have split: "run ex tr wr st (adding @ later) = run ex tr wr (run ex tr wr st adding) later"
    by (simp add: run_def)
  from adding_phase [OF assms(4) assms(3), of ex tr wr] assms(1,2)
  have "started (run ex tr wr st adding) @ map path (queue (run ex tr wr st adding))
        = first_occurrences (map normalize_path (filter (accepted ex) (concat (map event_paths adding))))"
    by (simp add: foldl_add_path)
  with other_phase [OF assms(5), of ex tr wr "run ex tr wr st adding"] show ?thesis
    by (simp add: split)
qed


lemma no_paths_without_adding: "\<not> adds_files ev \<Longrightarrow> event_paths ev = []"
  by (cases ev) simp_all

lemma step_as_loop:
  "adds_files ev \<Longrightarrow>
   step ex tr wr st ev = process_next_task (enqueue_loop ex (event_paths ev) st)"
  by (cases ev rule: event_paths.cases)
     (simp_all add: step_def handle_dropped_files_def enqueue_files_def)

lemma step_order:
  "started (step ex tr wr st ev) @ map path (queue (step ex tr wr st ev))
     = started st @ foldl add_path (map path (queue st)) (offered ex ev)"
proof (cases "adds_files ev")
  case True
  show ?thesis
    using process_next_task_order [of "enqueue_loop ex (event_paths ev) st"]
    by (simp add: step_as_loop [OF True] enqueue_loop_paths enqueue_loop_frame offered_def)
next
  case False
  then show ?thesis
    by (simp add: other_step offered_def no_paths_without_adding)
qed

lemma process_next_task_started:
  "take (length (started st)) (started (process_next_task st)) = started st"
  by (simp add: process_next_task_def Let_def update_status_def)

lemma step_started:
  "take (length (started st)) (started (step ex tr wr st ev)) = started st"
proof (cases "adds_files ev")
  case True
  show ?thesis
    using process_next_task_started [of "enqueue_loop ex (event_paths ev) st"]
    by (simp add: step_as_loop [OF True] enqueue_loop_frame)
next
  case False
  then show ?thesis
    using process_next_task_started [of "st\<lparr>after_calls := after_calls st - 1\<rparr>"]
    by (cases ev) (simp_all add: step_def model_loader_def execute_transcription_frame)
qed

lemma process_next_task_queue:
  "queue (process_next_task st) = queue st \<or> queue (process_next_task st) = tl (queue st)"
  by (simp add: process_next_task_def Let_def update_status_def)

lemma distinct_add_path: "distinct acc \<Longrightarrow> distinct (foldl add_path acc ps)"
  by (induction ps arbitrary: acc) (simp_all add: add_path_def)

lemma step_distinct:
  assumes "distinct (map path (queue st))"
  shows "distinct (map path (queue (step ex tr wr st ev)))"
proof -
  have next_task: "distinct (map path (queue (process_next_task s)))"
    if "distinct (map path (queue s))" for s
    using process_next_task_queue [of s] that
    by (auto simp: map_tl distinct_tl)
  show ?thesis
  proof (cases "adds_files ev")
    case True
    have "distinct (map path (queue (enqueue_loop ex (event_paths ev) st)))"
      using assms by (simp add: enqueue_loop_paths distinct_add_path)
    then show ?thesis
      by (simp add: step_as_loop [OF True] next_task)
  next
    case False
    then show ?thesis
      using assms next_task [of "st\<lparr>after_calls := after_calls st - 1\<rparr>"]
      by (cases ev) (simp_all add: step_def model_loader_def execute_transcription_frame)
  qed
qed

lemma run_distinct:
  "distinct (map path (queue st)) \<Longrightarrow> distinct (map path (queue (run ex tr wr st evs)))"
  unfolding run_def
  by (induction evs arbitrary: st) (simp_all add: step_distinct)

lemma first_occurrences_repeat:
  "p \<in> set xs \<Longrightarrow> first_occurrences (xs @ p # ys) = first_occurrences (xs @ ys)"
proof (induction xs arbitrary: ys rule: first_occurrences.induct)
  case 1
  then show ?case by simp
next
  case (2 x xs)
  show ?case
  proof (cases "p = x")
    case True
    then show ?thesis by simp
  next
    case False
    with 2(2) have "p \<in> set (filter (\<lambda>y. y \<noteq> x) xs)" by simp
    from 2(1) [OF this, of "filter (\<lambda>y. y \<noteq> x) ys"] False show ?thesis by simp
  qed
qed

lemma first_occurrences_add_path:
  "first_occurrences (done @ foldl add_path acc ps @ rest)
     = first_occurrences (done @ acc @ ps @ rest)"
proof (induction ps arbitrary: acc)
  case Nil
  show ?case by simp
next
  case (Cons p ps)
  show ?case
  proof (cases "p \<in> set acc")
    case True
    then have "add_path acc p = acc" by (simp add: add_path_def)
    moreover from True have "p \<in> set (done @ acc)" by simp
    then have "first_occurrences ((done @ acc) @ p # ps @ rest)
               = first_occurrences ((done @ acc) @ ps @ rest)"
      by (rule first_occurrences_repeat)
    ultimately show ?thesis by (simp add: Cons.IH)
  next
    case False
    then have "add_path acc p = acc @ [p]" by (simp add: add_path_def)
    then show ?thesis by (simp add: Cons.IH)
  qed
qed

lemma run_first_occurrences:
  "first_occurrences (started (run ex tr wr st evs) @ map path (queue (run ex tr wr st evs)))
     = first_occurrences (started st @ map path (queue st) @ concat (map (offered ex) evs))"
proof -
  have "first_occurrences
          (started (run ex tr wr st evs) @ map path (queue (run ex tr wr st evs)) @ rest)
        = first_occurrences
            (started st @ map path (queue st) @ concat (map (offered ex) evs) @ rest)" for rest
    unfolding run_def
  proof (induction evs arbitrary: st rest)
    case Nil
    show ?case by simp
  next
    case (Cons ev evs)
    let ?s = "step ex tr wr st ev"
    have "first_occurrences
            (started (foldl (step ex tr wr) ?s evs)
               @ map path (queue (foldl (step ex tr wr) ?s evs)) @ rest)
          = first_occurrences
              ((started ?s @ map path (queue ?s)) @ concat (map (offered ex) evs) @ rest)"
      using Cons.IH [of ?s rest] by simp
    also have "\<dots> = first_occurrences
        (started st @ foldl add_path (map path (queue st)) (offered ex ev)
           @ concat (map (offered ex) evs) @ rest)"
      by (simp only: step_order append_assoc)
    also have "\<dots> = first_occurrences
        (started st @ map path (queue st) @ offered ex ev
           @ concat (map (offered ex) evs) @ rest)"
      by (rule first_occurrences_add_path)
    finally show ?case by simp
  qed
  from this [of "[]"] show ?thesis by simp
qed

text \<open>
  C4, as amended. Whatever the state and whatever happens next (files are
  added, the model finishes loading, a pending callback runs, a worker ends),
  the paths of the tasks taken from the queue so far, in the order in which
  they were taken, followed by the paths still pending, form one list; the
  tasks already taken stay at its front, and it grows only at its end, by the
  accepted normalized paths of the files added, in their order, each unless it
  is pending at that moment. So jobs begin in FIFO order of their successful
  enqueue. For every run from a state with nothing queued or started, in any
  interleaving, the order in which the paths first appear in that list is the
  order of their first successful enqueue, and no path is pending twice: a later
  duplicate is collapsed while the earlier entry is pending.
\<close>

theorem processing_order_fifo:
  "started (step exists transcribe write st ev)
       @ map path (queue (step exists transcribe write st ev))
     = started st @ foldl add_path (map path (queue st)) (offered exists ev)
   \<and> take (length (started st)) (started (step exists transcribe write st ev)) = started st
   \<and> (queue st = [] \<and> started st = [] \<longrightarrow>
        first_occurrences
          (started (run exists transcribe write st evs)
             @ map path (queue (run exists transcribe write st evs)))
          = first_occurrences (concat (map (offered exists) evs))
        \<and> distinct (map path (queue (run exists transcribe write st evs))))"
proof (intro conjI impI)
  show "started (step exists transcribe write st ev)
          @ map path (queue (step exists transcribe write st ev))
        = started st @ foldl add_path (map path (queue st)) (offered exists ev)"
    by (rule step_order)
  show "take (length (started st)) (started (step exists transcribe write st ev)) = started st"
    by (rule step_started)
next
  assume empty: "queue st = [] \<and> started st = []"
  then show "first_occurrences
          (started (run exists transcribe write st evs)
             @ map path (queue (run exists transcribe write st evs)))
          = first_occurrences (concat (map (offered exists) evs))"
    using run_first_occurrences [of "exists" "transcribe" "write" st evs] by simp
  from empty show "distinct (map path (queue (run exists transcribe write st evs)))"
    by (intro run_distinct) simp
qed

theorem processing_order_fifo_witness:
  "queue (model_loader init_app) = [] \<and> started (model_loader init_app) = []
   \<and> first_occurrences
       (started (run (\<lambda>p. True) failing_engine (\<lambda>p t. None) (model_loader init_app)
          [EnqueueFiles [''a.wav'', ''b.wav'', ''a.wav'', ''c.wav''], WorkerEnds, AfterFires])
        @ map path (queue (run (\<lambda>p. True) failing_engine (\<lambda>p t. None) (model_loader init_app)
          [EnqueueFiles [''a.wav'', ''b.wav'', ''a.wav'', ''c.wav''], WorkerEnds, AfterFires])))
     = [''a.wav'', ''b.wav'', ''c.wav'']
   \<and> started (run (\<lambda>p. True) failing_engine (\<lambda>p t. None) (model_loader init_app)
        [EnqueueFiles [''a.wav'', ''b.wav'', ''a.wav'', ''c.wav''], WorkerEnds, AfterFires])
     = [''a.wav'', ''b.wav'']
   \<and> map path (queue (run (\<lambda>p. True) failing_engine (\<lambda>p t. None) (model_loader init_app)
        [EnqueueFiles [''a.wav'', ''b.wav'', ''a.wav'', ''c.wav''], WorkerEnds, AfterFires]))
     = [''c.wav'']"
proof -
  have q: "queue (model_loader init_app) = []" and s: "started (model_loader init_app) = []"
    by (simp_all add: model_loader_def init_app_def)
  have offers: "first_occurrences (concat (map (offered (\<lambda>p. True))
      [EnqueueFiles [''a.wav'', ''b.wav'', ''a.wav'', ''c.wav''], WorkerEnds, AfterFires]))
      = [''a.wav'', ''b.wav'', ''c.wav'']"
    by code_simp
  have begun: "started (run (\<lambda>p. True) failing_engine (\<lambda>p t. None) (model_loader init_app)
        [EnqueueFiles [''a.wav'', ''b.wav'', ''a.wav'', ''c.wav''], WorkerEnds, AfterFires])
     = [''a.wav'', ''b.wav'']"
    by code_simp
  have pending: "map path (queue (run (\<lambda>p. True) failing_engine (\<lambda>p t. None)
        (model_loader init_app)
        [EnqueueFiles [''a.wav'', ''b.wav'', ''a.wav'', ''c.wav''], WorkerEnds, AfterFires]))
     = [''c.wav'']"
    by code_simp
  from processing_order_fifo
    [of "\<lambda>p. True" failing_engine "\<lambda>p t. None" "model_loader init_app" ModelLoaded
        "[EnqueueFiles [''a.wav'', ''b.wav'', ''a.wav'', ''c.wav''], WorkerEnds, AfterFires]"]
    q s
  have "first_occurrences
       (started (run (\<lambda>p. True) failing_engine (\<lambda>p t. None) (model_loader init_app)
          [EnqueueFiles [''a.wav'', ''b.wav'', ''a.wav'', ''c.wav''], WorkerEnds, AfterFires])
        @ map path (queue (run (\<lambda>p. True) failing_engine (\<lambda>p t. None) (model_loader init_app)
          [EnqueueFiles [''a.wav'', ''b.wav'', ''a.wav'', ''c.wav''], WorkerEnds, AfterFires])))
     = first_occurrences (concat (map (offered (\<lambda>p. True))
      [EnqueueFiles [''a.wav'', ''b.wav'', ''a.wav'', ''c.wav''], WorkerEnds, AfterFires]))"
    by blast
  with offers have "first_occurrences
       (started (run (\<lambda>p. True) failing_engine (\<lambda>p t. None) (model_loader init_app)
          [EnqueueFiles [''a.wav'', ''b.wav'', ''a.wav'', ''c.wav''], WorkerEnds, AfterFires])
        @ map path (queue (run (\<lambda>p. True) failing_engine (\<lambda>p t. None) (model_loader init_app)
          [EnqueueFiles [''a.wav'', ''b.wav'', ''a.wav'', ''c.wav''], WorkerEnds, AfterFires])))
     = [''a.wav'', ''b.wav'', ''c.wav'']"
    by (simp only:)
  with q s begun pending show ?thesis by (simp only: simp_thms)
qed

text \<open>
  C4 as stated fails once a task has left the queue: the duplicate check looks
  at pending entries only. Here \<^verbatim>\<open>a.wav\<close> is added, transcribed to its end, and
  added again; it is taken from the queue and started a second time.
\<close>

theorem finished_job_is_started_again:
  "started (run (\<lambda>p. True) failing_engine (\<lambda>p t. None) (model_loader init_app)
      [EnqueueFiles [''a.wav''], WorkerEnds, AfterFires, EnqueueFiles [''a.wav'']])
   = [''a.wav'', ''a.wav'']
   \<and> first_occurrences [''a.wav'', ''a.wav''] = [''a.wav'']"
  by code_simp


end
